theory Spec2Isabelle
  imports Main
begin

section \<open>Data model\<close>

text \<open>
  The enums of \<^verbatim>\<open>hooks/usePermission\<close>. \<open>PermissionStatus\<close> is the provider's enum
  (granted, undetermined, denied); \<open>UNHANDLED\<close> stands for any other value a provider
  hands back at run time, which the last \<^verbatim>\<open>else\<close> of the hook catches.
\<close>

datatype PermissionState = Granted | Denied | UnexpectedError | NotYetRequested | Requesting

datatype PermissionType = camera | notifications | location

datatype PermissionStatus = GRANTED | UNDETERMINED | DENIED | UNHANDLED string

record PermissionResponse =
  status :: PermissionStatus
  canAskAgain :: bool

text \<open>A value thrown by a provider call or by a collaborator.\<close>

datatype error = Error string

text \<open>
  \<^verbatim>\<open>options?: { autoRequest?: boolean; noRender?: boolean }\<close>: an absent field is
  \<open>None\<close>, and \<^verbatim>\<open>inputs.options?.noRender\<close> is read through \<open>truthy\<close>.
\<close>

record Options =
  autoRequest :: "bool option"
  noRender :: "bool option"

record IUsePermissionInputs =
  type :: PermissionType
  getReason :: "unit \<Rightarrow> string"
  options :: "Options option"

definition truthy :: "bool option \<Rightarrow> bool" where
  "truthy b = (b = Some True)"

definition options_autoRequest :: "IUsePermissionInputs \<Rightarrow> bool option" where
  "options_autoRequest inputs = (case options inputs of None \<Rightarrow> None | Some opts \<Rightarrow> autoRequest opts)"

definition options_noRender :: "IUsePermissionInputs \<Rightarrow> bool option" where
  "options_noRender inputs = (case options inputs of None \<Rightarrow> None | Some opts \<Rightarrow> noRender opts)"

subsection \<open>Effects\<close>

text \<open>
  Every call the code makes into a collaborator is an event of a trace, in the order the
  code makes it. \<open>i18n_t k\<close> is the localized string of key \<open>k\<close>; \<open>plain\<close> is a string
  used as it is.
\<close>

datatype localized = i18n_t string | plain string

record step =
  label :: localized
  image :: "string option"

datatype element =
    BasicModal localized localized localized
  | PermissionSettingsModal localized string "step list"

datatype permission = LOCATION | NOTIFICATIONS

datatype provider_call =
    BarCodeScanner_requestPermissionsAsync
  | BarCodeScanner_getPermissionsAsync
  | Permissions_askAsync permission
  | Permissions_getAsync permission

datatype sentry_subject = Message string | Caught error

datatype extras =
    NoExtras
  | ExtraState PermissionState
  | ExtraCheck PermissionResponse
  | ExtraAskCheck PermissionResponse PermissionResponse

datatype event =
    captureSentry sentry_subject string PermissionType extras
  | forceUpdate
  | provider provider_call
  | call_openPermissionSettings PermissionType string
  | modal_open element
  | Asset_loadAsync string
  | Linking_openURL string
  | IntentLauncher_startActivityAsync string string int
  | AppState_addEventListener
  | AppState_removeEventListener

fun is_check :: "event \<Rightarrow> bool" where
  "is_check (provider BarCodeScanner_getPermissionsAsync) = True"
| "is_check (provider (Permissions_getAsync p)) = True"
| "is_check e = False"

fun is_ask :: "event \<Rightarrow> bool" where
  "is_ask (provider BarCodeScanner_requestPermissionsAsync) = True"
| "is_ask (provider (Permissions_askAsync p)) = True"
| "is_ask e = False"

fun is_provider :: "event \<Rightarrow> bool" where
  "is_provider (provider c) = True"
| "is_provider e = False"

fun is_settings_flow :: "event \<Rightarrow> bool" where
  "is_settings_flow (call_openPermissionSettings t m) = True"
| "is_settings_flow e = False"

fun is_dialog :: "event \<Rightarrow> bool" where
  "is_dialog (modal_open (BasicModal t m b)) = True"
| "is_dialog e = False"

fun is_report :: "event \<Rightarrow> bool" where
  "is_report (captureSentry subject origin t x) = True"
| "is_report e = False"

section \<open>The hook \<^verbatim>\<open>usePermission\<close>\<close>

text \<open>
  The refs of one mounted hook (\<^verbatim>\<open>savedInputs\<close>, \<^verbatim>\<open>savedState\<close>,
  \<^verbatim>\<open>savedIsAutoRequest\<close>) and the trace of the effects so far.
\<close>

record session =
  savedInputs :: IUsePermissionInputs
  savedState :: PermissionState
  savedIsAutoRequest :: bool
  trace :: "event list"

definition emit :: "event \<Rightarrow> session \<Rightarrow> session" where
  "emit e s = s\<lparr>trace := trace s @ [e]\<rparr>"

text \<open>
  The \<^verbatim>\<open>ask\<close> and \<open>check\<close> closures chosen from the permission type. The source's
  last branch throws on any other type; the three constructors leave none.
\<close>

fun ask_of :: "PermissionType \<Rightarrow> provider_call" where
  "ask_of camera = BarCodeScanner_requestPermissionsAsync"
| "ask_of location = Permissions_askAsync LOCATION"
| "ask_of notifications = Permissions_askAsync NOTIFICATIONS"

fun check_of :: "PermissionType \<Rightarrow> provider_call" where
  "check_of camera = BarCodeScanner_getPermissionsAsync"
| "check_of location = Permissions_getAsync LOCATION"
| "check_of notifications = Permissions_getAsync NOTIFICATIONS"

definition setState :: "PermissionState \<Rightarrow> session \<Rightarrow> session" where
  "setState nextState s =
     (if savedState s \<noteq> nextState then
        (let s1 = s\<lparr>savedState := nextState\<rparr> in
         if \<not> truthy (options_noRender (savedInputs s1)) then emit forceUpdate s1 else s1)
      else s)"

text \<open>
  The promise of one call of \<^verbatim>\<open>request()\<close>: suspended at one of the four
  \<^verbatim>\<open>await\<close>s of the executor with the local variables that are live there, resolved
  with a state, or abandoned (the executor threw outside its \<^verbatim>\<open>try\<close> blocks, so that
  \<^verbatim>\<open>resolve\<close> is never called).
\<close>

datatype promise =
    AwaitCheck provider_call
  | AwaitOpenPermissionSettings provider_call PermissionResponse
  | AwaitAsk PermissionResponse
  | AwaitModal PermissionResponse
  | Resolved PermissionState
  | Abandoned error

definition settingFailureModal :: "PermissionType \<Rightarrow> element" where
  "settingFailureModal t =
     BasicModal
       (case t of
          camera \<Rightarrow> i18n_t ''permissions.settingFailure.title.camera''
        | notifications \<Rightarrow> i18n_t ''permissions.settingFailure.title.notifications''
        | location \<Rightarrow> i18n_t ''permissions.settingFailure.title.location'')
       (case t of
          camera \<Rightarrow> i18n_t ''permissions.settingFailure.message.camera''
        | notifications \<Rightarrow> i18n_t ''permissions.settingFailure.message.notifications''
        | location \<Rightarrow> i18n_t ''permissions.settingFailure.message.location'')
       (i18n_t ''generic.okay'')"

text \<open>
  \<^verbatim>\<open>maybeRequestPermission\<close> up to its first \<^verbatim>\<open>await\<close>: the synchronous part of
  a call of \<^verbatim>\<open>request()\<close>.
\<close>

definition maybeRequestPermission :: "session \<Rightarrow> session \<times> promise" where
  "maybeRequestPermission s0 =
     (let isAutoRequest = savedIsAutoRequest s0;
          s = s0\<lparr>savedIsAutoRequest := False\<rparr>;
          ask = ask_of (type (savedInputs s));
          check = check_of (type (savedInputs s));
          prevState = savedState s
      in
        if prevState = Granted then
          (emit (captureSentry
                   (Message ''Permission has already been granted, will not request again.'')
                   ''usePermission.maybeRequestPermission''
                   (type (savedInputs s)) (ExtraState prevState)) s,
           Resolved prevState)
        else if prevState = Requesting \<and> \<not> isAutoRequest then
          (emit (captureSentry
                   (Message ''Cannot request permission while it is in the process of requesting.'')
                   ''usePermission.maybeRequestPermission''
                   (type (savedInputs s)) (ExtraState prevState)) s,
           Resolved prevState)
        else
          (emit (provider check) (setState Requesting s), AwaitCheck ask))"

text \<open>The executor after \<^verbatim>\<open>await check()\<close> has settled with \<open>r\<close>.\<close>

definition after_check ::
  "provider_call \<Rightarrow> error + PermissionResponse \<Rightarrow> session \<Rightarrow> session \<times> promise" where
  "after_check ask r s =
     (case r of
        Inl err \<Rightarrow>
          (setState UnexpectedError
             (emit (captureSentry (Caught err) ''usePermission.requestPermission.checkMethod''
                      (type (savedInputs s)) NoExtras) s),
           Resolved UnexpectedError)
      | Inr checkResponse \<Rightarrow>
          if status checkResponse = GRANTED then (setState Granted s, Resolved Granted)
          else if \<not> canAskAgain checkResponse then
            (emit (call_openPermissionSettings (type (savedInputs s))
                     (getReason (savedInputs s) ())) s,
             AwaitOpenPermissionSettings ask checkResponse)
          else (emit (provider ask) s, AwaitAsk checkResponse))"

text \<open>
  The executor after \<^verbatim>\<open>await openPermissionSettings(...)\<close> has settled. A rejection is
  thrown outside any \<^verbatim>\<open>try\<close>: the promise of \<^verbatim>\<open>request()\<close> is never resolved.
\<close>

definition after_openPermissionSettings ::
  "provider_call \<Rightarrow> PermissionResponse \<Rightarrow> error + unit \<Rightarrow> session \<Rightarrow> session \<times> promise" where
  "after_openPermissionSettings ask checkResponse r s =
     (case r of
        Inl err \<Rightarrow> (s, Abandoned err)
      | Inr u \<Rightarrow> (emit (provider ask) s, AwaitAsk checkResponse))"

text \<open>The executor after \<^verbatim>\<open>await ask()\<close> has settled with \<open>r\<close>.\<close>

definition after_ask ::
  "PermissionResponse \<Rightarrow> error + PermissionResponse \<Rightarrow> session \<Rightarrow> session \<times> promise" where
  "after_ask checkResponse r s =
     (case r of
        Inl err \<Rightarrow>
          (setState UnexpectedError
             (emit (captureSentry (Caught err) ''usePermission.requestPermission.askMethod''
                      (type (savedInputs s)) (ExtraCheck checkResponse)) s),
           Resolved UnexpectedError)
      | Inr askResponse \<Rightarrow>
          if status askResponse = GRANTED then (setState Granted s, Resolved Granted)
          else if status askResponse = DENIED then
            (if \<not> canAskAgain checkResponse then
               (emit (modal_open (settingFailureModal (type (savedInputs s)))) s,
                AwaitModal checkResponse)
             else (setState Denied s, Resolved Denied))
          else if status askResponse = UNDETERMINED then
            (setState UnexpectedError
               (emit (captureSentry (Message ''Got undetermined after permission request.'')
                        ''usePermission.requestPermission.askMethod''
                        (type (savedInputs s)) (ExtraAskCheck askResponse checkResponse)) s),
             Resolved UnexpectedError)
          else
            (setState UnexpectedError
               (emit (captureSentry (Message ''Unhandled permission status returned.'')
                        ''usePermission.requestPermission''
                        (type (savedInputs s)) (ExtraAskCheck askResponse checkResponse)) s),
             Resolved UnexpectedError))"

text \<open>The executor after \<^verbatim>\<open>await modal.open(<BasicModal .../>)\<close> has settled.\<close>

definition after_modal :: "PermissionResponse \<Rightarrow> error + unit \<Rightarrow> session \<Rightarrow> session \<times> promise" where
  "after_modal checkResponse r s =
     (case r of
        Inl err \<Rightarrow> (s, Abandoned err)
      | Inr u \<Rightarrow> (setState Denied s, Resolved Denied))"

subsection \<open>One call of \<^verbatim>\<open>request()\<close> run against an environment\<close>

text \<open>
  What the collaborators answer: the provider's \<^verbatim>\<open>check()\<close> and \<^verbatim>\<open>ask()\<close> return
  or raise; the Settings Redirect Flow and the dialog settle, or never do (\<open>None\<close>).
\<close>

record environment =
  check_result :: "error + PermissionResponse"
  settings_result :: "(error + unit) option"
  ask_result :: "error + PermissionResponse"
  modal_result :: "(error + unit) option"

definition resume :: "environment \<Rightarrow> session \<times> promise \<Rightarrow> session \<times> promise" where
  "resume env sp =
     (case sp of
        (s, AwaitCheck ask) \<Rightarrow> after_check ask (check_result env) s
      | (s, AwaitOpenPermissionSettings ask checkResponse) \<Rightarrow>
          (case settings_result env of
             None \<Rightarrow> sp
           | Some r \<Rightarrow> after_openPermissionSettings ask checkResponse r s)
      | (s, AwaitAsk checkResponse) \<Rightarrow> after_ask checkResponse (ask_result env) s
      | (s, AwaitModal checkResponse) \<Rightarrow>
          (case modal_result env of
             None \<Rightarrow> sp
           | Some r \<Rightarrow> after_modal checkResponse r s)
      | (s, Resolved st) \<Rightarrow> sp
      | (s, Abandoned err) \<Rightarrow> sp)"

text \<open>
  A call passes at most four \<^verbatim>\<open>await\<close>s (check, settings, ask, dialog), so four
  resumptions run it as far as the environment lets it go.
\<close>

definition request :: "environment \<Rightarrow> session \<Rightarrow> session \<times> promise" where
  "request env s = resume env (resume env (resume env (resume env (maybeRequestPermission s))))"

text \<open>The events a call added to the trace.\<close>

definition emitted :: "session \<Rightarrow> session \<Rightarrow> event list" where
  "emitted s s' = drop (length (trace s)) (trace s')"

text \<open>The call runs the acquisition sequence: neither of the two short-circuits applies.\<close>

definition acquires :: "session \<Rightarrow> bool" where
  "acquires s = (savedState s \<noteq> Granted \<and> \<not> (savedState s = Requesting \<and> \<not> savedIsAutoRequest s))"

text \<open>
  The session at the moment \<^verbatim>\<open>ask()\<close> has just been called, in a call that runs the
  acquisition sequence from \<open>s\<close> and whose check answered \<open>cr\<close> (not granted).
\<close>

definition asking :: "PermissionResponse \<Rightarrow> session \<Rightarrow> session" where
  "asking cr s =
     emit (provider (ask_of (type (savedInputs s))))
       ((if canAskAgain cr then (\<lambda>x. x)
         else emit (call_openPermissionSettings (type (savedInputs s)) (getReason (savedInputs s) ())))
        (emit (provider (check_of (type (savedInputs s))))
           (setState Requesting (s\<lparr>savedIsAutoRequest := False\<rparr>))))"

subsection \<open>Rendering and mounting\<close>

text \<open>
  One render of the hook: the first one (\<open>None\<close>) creates the refs, a later one stores the
  inputs of this render in \<^verbatim>\<open>savedInputs\<close>. The API object carries \<^verbatim>\<open>state\<close>
  (\<open>None\<close> is \<^verbatim>\<open>undefined\<close>); its \<^verbatim>\<open>request\<close> is \<open>maybeRequestPermission\<close>.
\<close>

record IUsePermissionApi =
  state :: "PermissionState option"

definition usePermission ::
  "IUsePermissionInputs \<Rightarrow> session option \<Rightarrow> session \<times> IUsePermissionApi" where
  "usePermission inputs prev =
     (let s = (case prev of
                 None \<Rightarrow>
                   \<lparr>savedInputs = inputs,
                    savedState = (if truthy (options_autoRequest inputs) then Requesting
                                  else NotYetRequested),
                    savedIsAutoRequest = False,
                    trace = []\<rparr>
               | Some s0 \<Rightarrow> s0\<lparr>savedInputs := inputs\<rparr>)
      in (s, \<lparr>state = (if truthy (options_noRender inputs) then None
                        else Some (savedState s))\<rparr>))"

text \<open>The mount effect \<^verbatim>\<open>requestOnMount\<close>, with the inputs of the first render.\<close>

definition requestOnMount :: "IUsePermissionInputs \<Rightarrow> session \<Rightarrow> session \<times> promise list" where
  "requestOnMount inputs s =
     (if truthy (options_autoRequest inputs) then
        (let (s', p) = maybeRequestPermission (s\<lparr>savedIsAutoRequest := True\<rparr>) in (s', [p]))
      else (s, []))"

subsection \<open>Interleaved calls\<close>

text \<open>
  The event loop runs one callback at a time: a render, a call of \<^verbatim>\<open>request()\<close> up to
  its first \<^verbatim>\<open>await\<close>, or the continuation of a suspended call whose awaited promise
  has settled (answers taken from an environment). A system is the session with the
  promises of all calls made so far.
\<close>

record system =
  hook :: session
  promises :: "promise list"

datatype action =
    Render IUsePermissionInputs
  | Request
  | Settle nat environment

definition mount :: "IUsePermissionInputs \<Rightarrow> system" where
  "mount inputs =
     (let (s, ps) = requestOnMount inputs (fst (usePermission inputs None))
      in \<lparr>hook = s, promises = ps\<rparr>)"

fun dispatch :: "action \<Rightarrow> system \<Rightarrow> system" where
  "dispatch (Render inputs) sys = sys\<lparr>hook := fst (usePermission inputs (Some (hook sys)))\<rparr>"
| "dispatch Request sys =
     (let (s', p) = maybeRequestPermission (hook sys)
      in \<lparr>hook = s', promises = promises sys @ [p]\<rparr>)"
| "dispatch (Settle i env) sys =
     (if i < length (promises sys) then
        (let (s', p) = resume env (hook sys, promises sys ! i)
         in \<lparr>hook = s', promises = (promises sys)[i := p]\<rparr>)
      else sys)"

definition run :: "IUsePermissionInputs \<Rightarrow> action list \<Rightarrow> system" where
  "run inputs acts = fold dispatch acts (mount inputs)"

text \<open>A call is in flight while its promise is suspended at an \<^verbatim>\<open>await\<close>.\<close>

fun in_flight :: "promise \<Rightarrow> bool" where
  "in_flight (Resolved st) = False"
| "in_flight (Abandoned err) = False"
| "in_flight p = True"

section \<open>The Settings Redirect Flow \<^verbatim>\<open>openPermissionSettings\<close>\<close>

datatype Platform_OS = ios | android

record device =
  OS :: Platform_OS
  android_package :: string

definition getCameraSteps :: "Platform_OS \<Rightarrow> step list" where
  "getCameraSteps os =
     [\<lparr>label = i18n_t ''permissions.general.tapGoToSettings'', image = None\<rparr>]
     @ (if os = android
        then [\<lparr>label = i18n_t ''permissions.general.tapPermissions'', image = None\<rparr>] else [])
     @ [\<lparr>label = i18n_t ''permissions.findCameraSetting'',
         image = Some (if os = ios then ''./CameraIos.png'' else ''./CameraAndroid.png'')\<rparr>,
        \<lparr>label = i18n_t ''permissions.tapToGreen'',
         image = Some (if os = ios then ''./ToggleOnIos.png'' else ''./ToggleOnAndroid.png'')\<rparr>]"

definition getNotificationsSteps :: "Platform_OS \<Rightarrow> step list" where
  "getNotificationsSteps os =
     [\<lparr>label = i18n_t ''permissions.general.tapGoToSettings'', image = None\<rparr>,
      \<lparr>label = i18n_t ''permissions.tapNotifications'',
       image = (if os = ios then Some ''./NotificationsIos.png'' else None)\<rparr>,
      \<lparr>label = i18n_t ''permissions.turnOnAllowNotifications'',
       image = Some (if os = ios then ''./ToggleOnIos.png'' else ''./ToggleOnAndroid.png'')\<rparr>]"

definition getLocationSteps :: "Platform_OS \<Rightarrow> step list" where
  "getLocationSteps os =
     [\<lparr>label = i18n_t ''permissions.general.tapGoToSettings'', image = None\<rparr>]
     @ (if os = android
        then [\<lparr>label = i18n_t ''permissions.general.tapPermissions'', image = None\<rparr>] else [])
     @ [\<lparr>label = (if os = ios then i18n_t ''permissions.tapLocation''
                   else i18n_t ''permissions.findLocationSetting''),
         image = Some (if os = ios then ''./LocationIos.png'' else ''./LocationAndroid.png'')\<rparr>,
        \<lparr>label = (if os = ios then i18n_t ''permissions.tapLocationWhileUsingTheApp''
                   else i18n_t ''permissions.tapToGreen''),
         image = Some (if os = ios then ''./LocationOnIos.png'' else ''./ToggleOnAndroid.png'')\<rparr>]"

text \<open>
  \<^verbatim>\<open>openAppSettings\<close>: a deep link on iOS, an activity with three flags elsewhere.
  The intent's action is the constant \<^verbatim>\<open>ACTION_APPLICATION_DETAILS_SETTINGS\<close>.
\<close>

definition openAppSettings :: "device \<Rightarrow> event list" where
  "openAppSettings dev =
     (if OS dev = ios then [Linking_openURL ''app-settings:'']
      else
        (let FLAG_ACTIVITY_NEW_TASK = (268435456 :: int);
             FLAG_ACTIVITY_NO_HISTORY = (1073741824 :: int);
             FLAG_ACTIVITY_EXCLUDE_FROM_RECENTS = (8388608 :: int)
         in [IntentLauncher_startActivityAsync ''ACTION_APPLICATION_DETAILS_SETTINGS''
               (''package:'' @ android_package dev)
               (or (or FLAG_ACTIVITY_NEW_TASK FLAG_ACTIVITY_NO_HISTORY)
                   FLAG_ACTIVITY_EXCLUDE_FROM_RECENTS)]))"

text \<open>
  The wait for the user to come back. \<open>subscribed\<close>: \<^verbatim>\<open>handleAppStateChange\<close> is
  registered with \<^verbatim>\<open>AppState\<close>; \<open>resolved\<close>: the promise's \<^verbatim>\<open>resolve\<close> has been
  called. A change of app state comes with the clock reading \<^verbatim>\<open>moment()\<close> at that
  moment, in milliseconds; \<^verbatim>\<open>diff(..., 'milliseconds')\<close> is the difference of two
  readings.
\<close>

record waiting =
  subscribed :: bool
  resolved :: bool

definition handleAppStateChange :: "int \<Rightarrow> string \<times> int \<Rightarrow> waiting \<Rightarrow> waiting" where
  "handleAppStateChange settingsOpenedAt change w =
     (let nextAppState = fst change; now = snd change in
      if nextAppState = ''active'' then
        (let millisSinceSettingsOpened = now - settingsOpenedAt in
         if millisSinceSettingsOpened > 1000 then w\<lparr>subscribed := False, resolved := True\<rparr>
         else w)
      else w)"

text \<open>\<^verbatim>\<open>AppState\<close> hands a change to the listener only while it is registered.\<close>

definition AppState_change :: "int \<Rightarrow> string \<times> int \<Rightarrow> waiting \<Rightarrow> waiting" where
  "AppState_change settingsOpenedAt change w =
     (if subscribed w then handleAppStateChange settingsOpenedAt change w else w)"

definition await_return :: "int \<Rightarrow> (string \<times> int) list \<Rightarrow> waiting" where
  "await_return settingsOpenedAt changes =
     fold (AppState_change settingsOpenedAt) changes \<lparr>subscribed = True, resolved = False\<rparr>"

text \<open>
  What the flow's collaborators do: the asset loads and the instructional dialog settle
  or never do; \<open>opened_at\<close> is the clock reading taken for \<^verbatim>\<open>settingsOpenedAt\<close>;
  \<open>changes\<close> are the changes of app state after the listener was added.
\<close>

record settings_environment =
  assets_result :: "(error + unit) option"
  confirm_result :: "(error + unit) option"
  opened_at :: int
  changes :: "(string \<times> int) list"

text \<open>
  The flow returns its events and how its promise settles (\<open>None\<close>: never). The
  source's throw on an unsupported type has no input among the three constructors.
\<close>

definition openPermissionSettings ::
  "device \<Rightarrow> settings_environment \<Rightarrow> PermissionType \<Rightarrow> string
     \<Rightarrow> event list \<times> (error + unit) option" where
  "openPermissionSettings dev senv t message =
     (let steps = (case t of
                     camera \<Rightarrow> getCameraSteps (OS dev)
                   | location \<Rightarrow> getLocationSteps (OS dev)
                   | notifications \<Rightarrow> getNotificationsSteps (OS dev));
          loads = map Asset_loadAsync (List.map_filter id (map image steps))
      in case assets_result senv of
           None \<Rightarrow> (loads, None)
         | Some (Inl err) \<Rightarrow> (loads, Some (Inl err))
         | Some (Inr u) \<Rightarrow>
             (let dialog = [modal_open (PermissionSettingsModal
                              (case t of
                                 camera \<Rightarrow> i18n_t ''permissions.title.camera''
                               | notifications \<Rightarrow> i18n_t ''permissions.title.notifications''
                               | location \<Rightarrow> i18n_t ''permissions.title.location'')
                              message steps)]
              in case confirm_result senv of
                   None \<Rightarrow> (loads @ dialog, None)
                 | Some (Inl err) \<Rightarrow> (loads @ dialog, Some (Inl err))
                 | Some (Inr u) \<Rightarrow>
                     (let settingsOpenedAt = opened_at senv;
                          w = await_return settingsOpenedAt (changes senv)
                      in (loads @ dialog @ openAppSettings dev @ [AppState_addEventListener]
                            @ (if subscribed w then [] else [AppState_removeEventListener]),
                          if resolved w then Some (Inr ()) else None))))"

subsection \<open>Notions used in the proofs\<close>

text \<open>
  The invariant of the interleaved system: the auto-request flag is consumed, at most one
  call is in flight, and the state is \<open>Requesting\<close> while one is.
\<close>

definition guarded :: "system \<Rightarrow> bool" where
  "guarded sys =
     (\<not> savedIsAutoRequest (hook sys)
      \<and> length (filter in_flight (promises sys)) \<le> 1
      \<and> (filter in_flight (promises sys) \<noteq> [] \<longrightarrow> savedState (hook sys) = Requesting))"

text \<open>The number of \<^verbatim>\<open>await\<close>s a promise may still pass.\<close>

fun stage :: "promise \<Rightarrow> nat" where
  "stage (AwaitCheck a) = 4"
| "stage (AwaitOpenPermissionSettings a c) = 3"
| "stage (AwaitAsk c) = 2"
| "stage (AwaitModal c) = 1"
| "stage (Resolved st) = 0"
| "stage (Abandoned e) = 0"

subsection \<open>The outcome the specification prescribes\<close>

text \<open>
  A second definition, written from the specification and not from the code, to compare
  \<open>request\<close> with: the state that the transition table and the acquisition sequence of
  the specification's section 4.1 settle on, when the Settings Redirect Flow and the
  dialog run to completion. From \<open>Granted\<close>: \<open>Granted\<close>. From \<open>Requesting\<close> outside the
  auto-request kickoff: \<open>Requesting\<close>. Otherwise: a failing check gives
  \<open>UnexpectedError\<close>, a granted check \<open>Granted\<close>, and after that a failing ask gives
  \<open>UnexpectedError\<close>, a granted ask \<open>Granted\<close>, a denied ask \<open>Denied\<close>, any other
  status \<open>UnexpectedError\<close>.
\<close>

definition spec_final_state :: "environment \<Rightarrow> session \<Rightarrow> PermissionState" where
  "spec_final_state env s =
     (if savedState s = Granted then Granted
      else if savedState s = Requesting \<and> \<not> savedIsAutoRequest s then Requesting
      else
        (case check_result env of
           Inl err \<Rightarrow> UnexpectedError
         | Inr c \<Rightarrow>
             if status c = GRANTED then Granted
             else
               (case ask_result env of
                  Inl err \<Rightarrow> UnexpectedError
                | Inr a \<Rightarrow>
                    if status a = GRANTED then Granted
                    else if status a = DENIED then Denied
                    else UnexpectedError)))"

section \<open>Example sessions\<close>

text \<open>
  \<open>ScannerView_inputs\<close> are the inputs \<^verbatim>\<open>ScannerView\<close> passes to the hook (camera,
  auto-request). The two others are a plain location session and a notifications session
  with \<^verbatim>\<open>noRender\<close>. \<open>fresh\<close> is the session after the first render, \<open>kickoff\<close> the
  session in which the mount effect calls \<^verbatim>\<open>request()\<close>, and \<open>answers c a\<close> an
  environment where the provider answers \<open>c\<close> and \<open>a\<close> and the user goes through the
  settings and closes the dialog.
\<close>

definition ScannerView_inputs :: IUsePermissionInputs where
  "ScannerView_inputs =
     \<lparr>type = camera, getReason = (\<lambda>u. ''scan.cameraPermissionReason''),
      options = Some \<lparr>autoRequest = Some True, noRender = None\<rparr>\<rparr>"

definition location_inputs :: IUsePermissionInputs where
  "location_inputs =
     \<lparr>type = location, getReason = (\<lambda>u. ''To show places nearby:''), options = None\<rparr>"

definition silent_inputs :: IUsePermissionInputs where
  "silent_inputs =
     \<lparr>type = notifications, getReason = (\<lambda>u. ''To remind you:''),
      options = Some \<lparr>autoRequest = None, noRender = Some True\<rparr>\<rparr>"

definition fresh :: "IUsePermissionInputs \<Rightarrow> session" where
  "fresh inputs = fst (usePermission inputs None)"

definition kickoff :: "IUsePermissionInputs \<Rightarrow> session" where
  "kickoff inputs = (fresh inputs)\<lparr>savedIsAutoRequest := True\<rparr>"

definition response :: "PermissionStatus \<Rightarrow> bool \<Rightarrow> PermissionResponse" where
  "response st again = \<lparr>status = st, canAskAgain = again\<rparr>"

definition answers ::
  "error + PermissionResponse \<Rightarrow> error + PermissionResponse \<Rightarrow> environment" where
  "answers c a =
     \<lparr>check_result = c, settings_result = Some (Inr ()), ask_result = a,
      modal_result = Some (Inr ())\<rparr>"

section \<open>Auxiliary lemmas\<close>

lemma savedState_setState: "savedState (setState x s) = x"
  by (simp add: setState_def emit_def Let_def)

lemma trace_setState:
  "trace (setState x s) =
     trace s @ (if savedState s \<noteq> x \<and> \<not> truthy (options_noRender (savedInputs s)) then [forceUpdate] else [])"
  by (simp add: setState_def emit_def Let_def)

lemma savedInputs_setState: "savedInputs (setState x s) = savedInputs s"
  by (simp add: setState_def emit_def Let_def)

lemma savedIsAutoRequest_setState: "savedIsAutoRequest (setState x s) = savedIsAutoRequest s"
  by (simp add: setState_def emit_def Let_def)

lemma emit_simps:
  "savedState (emit e s) = savedState s"
  "savedInputs (emit e s) = savedInputs s"
  "savedIsAutoRequest (emit e s) = savedIsAutoRequest s"
  "trace (emit e s) = trace s @ [e]"
  by (simp_all add: emit_def)

lemma is_ask_ask_of: "is_ask (provider (ask_of t))"
  by (cases t) simp_all

lemma not_is_ask_check_of: "\<not> is_ask (provider (check_of t))"
  by (cases t) simp_all

lemma maybeRequestPermission_acquires:
  "acquires s \<Longrightarrow>
   maybeRequestPermission s =
     (emit (provider (check_of (type (savedInputs s))))
        (setState Requesting (s\<lparr>savedIsAutoRequest := False\<rparr>)),
      AwaitCheck (ask_of (type (savedInputs s))))"
  by (auto simp: maybeRequestPermission_def acquires_def Let_def)

lemma request_check_granted:
  assumes "acquires s" "check_result env = Inr cr" "status cr = GRANTED"
  shows "request env s =
     (setState Granted (emit (provider (check_of (type (savedInputs s))))
        (setState Requesting (s\<lparr>savedIsAutoRequest := False\<rparr>))), Resolved Granted)"
  using assms by (simp add: request_def maybeRequestPermission_acquires resume_def after_check_def)

lemmas sess_simps = savedState_setState trace_setState savedInputs_setState
  savedIsAutoRequest_setState emit_simps

lemma request_settings_pending:
  assumes "acquires s" "check_result env = Inr cr" "status cr \<noteq> GRANTED" "\<not> canAskAgain cr"
    "settings_result env = None"
  shows "request env s =
     (emit (call_openPermissionSettings (type (savedInputs s)) (getReason (savedInputs s) ()))
        (emit (provider (check_of (type (savedInputs s))))
           (setState Requesting (s\<lparr>savedIsAutoRequest := False\<rparr>))),
      AwaitOpenPermissionSettings (ask_of (type (savedInputs s))) cr)"
  using assms
  by (simp add: request_def maybeRequestPermission_acquires resume_def after_check_def sess_simps)

lemma request_settings_rejected:
  assumes "acquires s" "check_result env = Inr cr" "status cr \<noteq> GRANTED" "\<not> canAskAgain cr"
    "settings_result env = Some (Inl err)"
  shows "request env s =
     (emit (call_openPermissionSettings (type (savedInputs s)) (getReason (savedInputs s) ()))
        (emit (provider (check_of (type (savedInputs s))))
           (setState Requesting (s\<lparr>savedIsAutoRequest := False\<rparr>))),
      Abandoned err)"
  using assms
  by (simp add: request_def maybeRequestPermission_acquires resume_def after_check_def
      after_openPermissionSettings_def sess_simps)

lemma resume_Resolved: "resume env (s, Resolved st) = (s, Resolved st)"
  by (simp add: resume_def)

lemma after_ask_direct:
  "canAskAgain cr \<Longrightarrow> \<exists>s' st. after_ask cr r s = (s', Resolved st)"
  by (simp add: after_ask_def split: sum.splits)

lemma request_asking_direct:
  assumes "acquires s" "check_result env = Inr cr" "status cr \<noteq> GRANTED" "canAskAgain cr"
  shows "request env s = after_ask cr (ask_result env) (asking cr s)"
proof -
  obtain s' st where a: "after_ask cr (ask_result env) (asking cr s) = (s', Resolved st)"
    using after_ask_direct [OF assms(4)] by blast
  have "resume env (resume env (maybeRequestPermission s)) = after_ask cr (ask_result env) (asking cr s)"
    using assms
    by (simp add: maybeRequestPermission_acquires resume_def after_check_def sess_simps asking_def)
  then show ?thesis
    by (simp add: request_def a resume_Resolved)
qed

lemma request_asking_settings:
  assumes "acquires s" "check_result env = Inr cr" "status cr \<noteq> GRANTED" "\<not> canAskAgain cr"
    "settings_result env = Some (Inr ())"
  shows "request env s = resume env (after_ask cr (ask_result env) (asking cr s))"
proof -
  have "resume env (resume env (resume env (maybeRequestPermission s))) =
        after_ask cr (ask_result env) (asking cr s)"
    using assms
    by (simp add: maybeRequestPermission_acquires resume_def after_check_def
        after_openPermissionSettings_def sess_simps asking_def)
  then show ?thesis
    by (simp add: request_def)
qed

lemma trace_asking:
  "trace (asking cr s) =
     trace s @ (if savedState s \<noteq> Requesting \<and> \<not> truthy (options_noRender (savedInputs s))
                then [forceUpdate] else [])
       @ [provider (check_of (type (savedInputs s)))]
       @ (if canAskAgain cr then []
          else [call_openPermissionSettings (type (savedInputs s)) (getReason (savedInputs s) ())])
       @ [provider (ask_of (type (savedInputs s)))]"
  by (simp add: asking_def sess_simps)

lemma asking_simps:
  "savedState (asking cr s) = Requesting"
  "savedInputs (asking cr s) = savedInputs s"
  by (simp_all add: asking_def sess_simps)

lemma resume_after_ask_tail:
  "\<exists>es. trace (fst (resume env (after_ask cr r s))) = trace s @ es
      \<and> filter is_provider es = [] \<and> filter is_settings_flow es = []"
  by (cases r; cases "modal_result env")
     (auto simp add: after_ask_def resume_def after_modal_def sess_simps split: sum.splits)

lemma is_ask_provider: "is_ask e \<Longrightarrow> is_provider e"
  by (cases e rule: is_ask.cases) simp_all

lemma no_provider_no_ask: "filter is_provider es = [] \<Longrightarrow> filter is_ask es = []"
  by (auto simp: filter_empty_conv dest: is_ask_provider)

lemma emitted_request_settings:
  assumes "acquires s" "check_result env = Inr cr" "status cr \<noteq> GRANTED" "\<not> canAskAgain cr"
  shows "\<exists>pre es. emitted s (fst (request env s)) =
           pre @ [provider (check_of (type (savedInputs s))),
                  call_openPermissionSettings (type (savedInputs s)) (getReason (savedInputs s) ())]
             @ (if settings_result env = Some (Inr ())
                then provider (ask_of (type (savedInputs s))) # es else [])
         \<and> set pre \<subseteq> {forceUpdate}
         \<and> filter is_provider es = [] \<and> filter is_settings_flow es = []"
proof (cases "settings_result env")
  case None
  show ?thesis
    by (rule exI [of _ "if savedState s \<noteq> Requesting \<and> \<not> truthy (options_noRender (savedInputs s)) then [forceUpdate] else []"])
       (rule exI [of _ "[]"], auto simp add: request_settings_pending [OF assms None] emitted_def sess_simps None)
next
  case (Some r)
  show ?thesis
  proof (cases r)
    case (Inl err)
    with Some have e: "settings_result env = Some (Inl err)" by simp
    show ?thesis
      by (rule exI [of _ "if savedState s \<noteq> Requesting \<and> \<not> truthy (options_noRender (savedInputs s)) then [forceUpdate] else []"])
         (rule exI [of _ "[]"], auto simp add: request_settings_rejected [OF assms e] emitted_def sess_simps e)
  next
    case (Inr u)
    with Some have e: "settings_result env = Some (Inr ())" by simp
    obtain es where es: "trace (fst (resume env (after_ask cr (ask_result env) (asking cr s)))) = trace (asking cr s) @ es"
      "filter is_provider es = []" "filter is_settings_flow es = []"
      using resume_after_ask_tail by blast
    show ?thesis
      apply (rule exI [of _ "if savedState s \<noteq> Requesting \<and> \<not> truthy (options_noRender (savedInputs s)) then [forceUpdate] else []"])
      apply (rule exI [of _ es])
      using assms(4) es(2,3)
      apply (auto simp add: request_asking_settings [OF assms e] emitted_def es(1) trace_asking e)
      done
  qed
qed

lemma resume_settings_suspended:
  assumes "acquires s" "check_result env = Inr cr" "status cr \<noteq> GRANTED" "\<not> canAskAgain cr"
  shows "snd (resume env (maybeRequestPermission s)) =
           AwaitOpenPermissionSettings (ask_of (type (savedInputs s))) cr"
    and "savedState (fst (resume env (maybeRequestPermission s))) = Requesting"
  using assms
  by (simp_all add: maybeRequestPermission_acquires resume_def after_check_def sess_simps)

lemma savedState_after_openPermissionSettings:
  "savedState (fst (after_openPermissionSettings ask cr r s)) = savedState s"
  by (cases r) (simp_all add: after_openPermissionSettings_def sess_simps)

lemma request_asked:
  assumes "acquires s" "check_result env = Inr cr" "status cr \<noteq> GRANTED"
    "canAskAgain cr \<or> settings_result env = Some (Inr ())"
  shows "request env s = resume env (after_ask cr (ask_result env) (asking cr s))"
proof (cases "canAskAgain cr")
  case True
  obtain s' st where a: "after_ask cr (ask_result env) (asking cr s) = (s', Resolved st)"
    using after_ask_direct [OF True] by blast
  show ?thesis
    by (simp add: request_asking_direct [OF assms(1-3) True] a resume_Resolved)
next
  case False
  with assms(4) have "settings_result env = Some (Inr ())" by simp
  then show ?thesis
    using request_asking_settings [OF assms(1-3) False] by simp
qed

lemma filter_asking:
  "filter is_dialog (drop (length (trace s)) (trace (asking cr s))) = []"
  "filter is_report (drop (length (trace s)) (trace (asking cr s))) = []"
  by (simp_all add: trace_asking)

lemma trace_asking_prefix: "\<exists>es. trace (asking cr s) = trace s @ es"
  by (simp add: trace_asking)

lemma request_check_raises:
  assumes "acquires s" "check_result env = Inl err"
  shows "request env s =
     (setState UnexpectedError
        (emit (captureSentry (Caught err) ''usePermission.requestPermission.checkMethod''
                 (type (savedInputs s)) NoExtras)
           (emit (provider (check_of (type (savedInputs s))))
              (setState Requesting (s\<lparr>savedIsAutoRequest := False\<rparr>)))),
      Resolved UnexpectedError)"
  using assms
  by (simp add: request_def maybeRequestPermission_acquires resume_def after_check_def sess_simps)

lemma request_asked_tail:
  assumes "acquires s" "check_result env = Inr cr" "status cr \<noteq> GRANTED"
    "canAskAgain cr \<or> settings_result env = Some (Inr ())"
  shows "\<exists>es. emitted s (fst (request env s)) = drop (length (trace s)) (trace (asking cr s)) @ es
      \<and> filter is_provider es = [] \<and> filter is_settings_flow es = []"
proof -
  obtain es where es: "trace (fst (resume env (after_ask cr (ask_result env) (asking cr s)))) = trace (asking cr s) @ es"
      "filter is_provider es = []" "filter is_settings_flow es = []"
    using resume_after_ask_tail by blast
  obtain as where as: "trace (asking cr s) = trace s @ as"
    using trace_asking_prefix by blast
  show ?thesis
    using es(2,3)
    by (intro exI [of _ es]) (simp add: request_asked [OF assms] emitted_def es(1) as)
qed

lemma resume_quiet:
  assumes "truthy (options_noRender (savedInputs (fst r)))"
  shows "truthy (options_noRender (savedInputs (fst (resume env r))))
       \<and> (\<exists>es. trace (fst (resume env r)) = trace (fst r) @ es \<and> forceUpdate \<notin> set es)"
proof (cases r)
  case (Pair s p)
  show ?thesis
    using assms unfolding Pair
    by (cases p)
       (auto simp add: resume_def after_check_def after_openPermissionSettings_def after_ask_def
          after_modal_def sess_simps split: sum.splits option.splits)
qed

lemma maybeRequestPermission_quiet:
  assumes "truthy (options_noRender (savedInputs s))"
  shows "truthy (options_noRender (savedInputs (fst (maybeRequestPermission s))))
       \<and> (\<exists>es. trace (fst (maybeRequestPermission s)) = trace s @ es \<and> forceUpdate \<notin> set es)"
  using assms
  by (auto simp add: maybeRequestPermission_def Let_def sess_simps)

lemma request_quiet:
  assumes "truthy (options_noRender (savedInputs s))"
  shows "forceUpdate \<notin> set (emitted s (fst (request env s)))"
proof -
  let ?r0 = "maybeRequestPermission s"
  let ?r1 = "resume env ?r0"
  let ?r2 = "resume env ?r1"
  let ?r3 = "resume env ?r2"
  let ?r4 = "resume env ?r3"
  obtain e0 where 0: "truthy (options_noRender (savedInputs (fst ?r0)))"
      "trace (fst ?r0) = trace s @ e0" "forceUpdate \<notin> set e0"
    using maybeRequestPermission_quiet [OF assms] by blast
  obtain e1 where 1: "truthy (options_noRender (savedInputs (fst ?r1)))"
      "trace (fst ?r1) = trace (fst ?r0) @ e1" "forceUpdate \<notin> set e1"
    using resume_quiet [OF 0(1)] by blast
  obtain e2 where 2: "truthy (options_noRender (savedInputs (fst ?r2)))"
      "trace (fst ?r2) = trace (fst ?r1) @ e2" "forceUpdate \<notin> set e2"
    using resume_quiet [OF 1(1)] by blast
  obtain e3 where 3: "truthy (options_noRender (savedInputs (fst ?r3)))"
      "trace (fst ?r3) = trace (fst ?r2) @ e3" "forceUpdate \<notin> set e3"
    using resume_quiet [OF 2(1)] by blast
  obtain e4 where 4: "trace (fst ?r4) = trace (fst ?r3) @ e4" "forceUpdate \<notin> set e4"
    using resume_quiet [OF 3(1)] by blast
  have "emitted s (fst (request env s)) = e0 @ e1 @ e2 @ e3 @ e4"
    by (simp add: request_def emitted_def 0(2) 1(2) 2(2) 3(2) 4(1))
  then show ?thesis
    using 0(3) 1(3) 2(3) 3(3) 4(2) by simp
qed

lemma resume_resolved_state:
  assumes "\<forall>st. snd r = Resolved st \<longrightarrow> savedState (fst r) = st"
  shows "\<forall>st. snd (resume env r) = Resolved st \<longrightarrow> savedState (fst (resume env r)) = st"
proof (cases r)
  case (Pair s p)
  show ?thesis
    using assms unfolding Pair
    by (cases p)
       (auto simp add: resume_def after_check_def after_openPermissionSettings_def after_ask_def
          after_modal_def sess_simps split: sum.splits option.splits if_splits)
qed

lemma maybeRequestPermission_resolved_state:
  "\<forall>st. snd (maybeRequestPermission s) = Resolved st
        \<longrightarrow> savedState (fst (maybeRequestPermission s)) = st"
  by (auto simp add: maybeRequestPermission_def Let_def sess_simps)

lemma request_resolved_state:
  "snd (request env s) = Resolved st \<Longrightarrow> savedState (fst (request env s)) = st"
  unfolding request_def
  using resume_resolved_state [OF resume_resolved_state [OF resume_resolved_state
    [OF resume_resolved_state [OF maybeRequestPermission_resolved_state]]]]
  by blast

lemma maybeRequestPermission_auto:
  "\<not> savedIsAutoRequest (fst (maybeRequestPermission s))"
  by (simp add: maybeRequestPermission_def Let_def sess_simps)

lemma maybeRequestPermission_busy:
  assumes "savedState s = Requesting" "\<not> savedIsAutoRequest s"
  shows "maybeRequestPermission s =
     (emit (captureSentry
              (Message ''Cannot request permission while it is in the process of requesting.'')
              ''usePermission.maybeRequestPermission''
              (type (savedInputs s)) (ExtraState Requesting)) s,
      Resolved Requesting)"
  using assms by (cases s) (simp add: maybeRequestPermission_def Let_def emit_def)

lemma maybeRequestPermission_in_flight:
  "in_flight (snd (maybeRequestPermission s)) \<Longrightarrow> savedState (fst (maybeRequestPermission s)) = Requesting"
  by (auto simp add: maybeRequestPermission_def Let_def sess_simps split: if_splits)

lemma maybeRequestPermission_idle:
  "\<not> in_flight (snd (maybeRequestPermission s)) \<Longrightarrow>
   savedState (fst (maybeRequestPermission s)) = savedState s"
  by (auto simp add: maybeRequestPermission_def Let_def sess_simps split: if_splits)

lemma resume_auto:
  "savedIsAutoRequest (fst (resume env (s, p))) = savedIsAutoRequest s"
  by (cases p)
     (auto simp add: resume_def after_check_def after_openPermissionSettings_def after_ask_def
        after_modal_def sess_simps split: sum.splits option.splits)

lemma resume_in_flight:
  "in_flight (snd (resume env (s, p))) \<Longrightarrow>
   in_flight p \<and> savedState (fst (resume env (s, p))) = savedState s"
  by (cases p)
     (auto simp add: resume_def after_check_def after_openPermissionSettings_def after_ask_def
        after_modal_def sess_simps split: sum.splits option.splits if_splits)

lemma resume_idle: "\<not> in_flight p \<Longrightarrow> resume env (s, p) = (s, p)"
  by (cases p) (simp_all add: resume_def)

lemma filter_update_le:
  "i < length ps \<Longrightarrow> (P q \<longrightarrow> P (ps ! i)) \<Longrightarrow>
   length (filter P (ps[i := q])) \<le> length (filter P ps)"
proof (induction ps arbitrary: i)
  case Nil
  then show ?case by simp
next
  case (Cons a ps)
  then show ?case by (cases i) auto
qed

lemma filter_update_drop:
  "i < length ps \<Longrightarrow> P (ps ! i) \<Longrightarrow> \<not> P q \<Longrightarrow>
   length (filter P (ps[i := q])) < length (filter P ps)"
proof (induction ps arbitrary: i)
  case Nil
  then show ?case by simp
next
  case (Cons a ps)
  then show ?case by (cases i) (auto simp: Suc_le_eq dest: filter_update_le [of _ ps P q])
qed

lemma guarded_mount: "guarded (mount inputs)"
proof (cases "truthy (options_autoRequest inputs)")
  case True
  obtain s' p where m: "maybeRequestPermission
      ((fst (usePermission inputs None))\<lparr>savedIsAutoRequest := True\<rparr>) = (s', p)"
    by (cases "maybeRequestPermission ((fst (usePermission inputs None))\<lparr>savedIsAutoRequest := True\<rparr>)")
  have "\<not> savedIsAutoRequest s'"
    using maybeRequestPermission_auto [of "(fst (usePermission inputs None))\<lparr>savedIsAutoRequest := True\<rparr>"]
    by (simp add: m)
  moreover have "in_flight p \<longrightarrow> savedState s' = Requesting"
    using maybeRequestPermission_in_flight [of "(fst (usePermission inputs None))\<lparr>savedIsAutoRequest := True\<rparr>"]
    by (simp add: m)
  ultimately show ?thesis
    using True by (simp add: guarded_def mount_def requestOnMount_def m)
next
  case False
  then show ?thesis
    by (simp add: guarded_def mount_def requestOnMount_def usePermission_def Let_def)
qed

lemma guarded_dispatch:
  assumes "guarded sys"
  shows "guarded (dispatch a sys)"
proof (cases a)
  case (Render inputs)
  then show ?thesis
    using assms by (simp add: guarded_def usePermission_def Let_def)
next
  case Request
  obtain s' p where m: "maybeRequestPermission (hook sys) = (s', p)"
    by (cases "maybeRequestPermission (hook sys)")
  have auto: "\<not> savedIsAutoRequest s'"
    using maybeRequestPermission_auto [of "hook sys"] by (simp add: m)
  show ?thesis
  proof (cases "in_flight p")
    case True
    then have st: "savedState s' = Requesting"
      using maybeRequestPermission_in_flight [of "hook sys"] by (simp add: m)
    have "savedState (hook sys) \<noteq> Requesting"
    proof
      assume "savedState (hook sys) = Requesting"
      then have "p = Resolved Requesting"
        using maybeRequestPermission_busy [of "hook sys"] assms by (simp add: guarded_def m)
      with True show False by simp
    qed
    then have "filter in_flight (promises sys) = []"
      using assms by (auto simp add: guarded_def)
    then show ?thesis
      using True auto st by (simp add: guarded_def Request m)
  next
    case False
    then have "savedState s' = savedState (hook sys)"
      using maybeRequestPermission_idle [of "hook sys"] by (simp add: m)
    then show ?thesis
      using False auto assms by (simp add: guarded_def Request m)
  qed
next
  case (Settle i env)
  show ?thesis
  proof (cases "i < length (promises sys)")
    case False
    then show ?thesis using assms by (simp add: Settle)
  next
    case True
    obtain s' p where m: "resume env (hook sys, promises sys ! i) = (s', p)"
      by (cases "resume env (hook sys, promises sys ! i)")
    have auto: "\<not> savedIsAutoRequest s'"
      using resume_auto [of env "hook sys" "promises sys ! i"] assms by (simp add: guarded_def m)
    show ?thesis
    proof (cases "in_flight (promises sys ! i)")
      case False
      then have "s' = hook sys" "p = promises sys ! i"
        using resume_idle [of "promises sys ! i" env "hook sys"] m by simp_all
      then show ?thesis
        using assms True by (simp add: guarded_def Settle m)
    next
      case fl: True
      show ?thesis
      proof (cases "in_flight p")
        case True
        then have "savedState s' = savedState (hook sys)"
          using resume_in_flight [of env "hook sys" "promises sys ! i"] by (simp add: m)
        moreover have "length (filter in_flight ((promises sys)[i := p])) \<le> length (filter in_flight (promises sys))"
          using \<open>i < length (promises sys)\<close> fl by (intro filter_update_le) simp_all
        moreover have "filter in_flight (promises sys) \<noteq> []"
          using fl \<open>i < length (promises sys)\<close> by (auto simp: filter_empty_conv)
        ultimately show ?thesis
          using assms auto \<open>i < length (promises sys)\<close> by (simp add: guarded_def Settle m)
      next
        case False
        have "length (filter in_flight ((promises sys)[i := p])) < length (filter in_flight (promises sys))"
          using \<open>i < length (promises sys)\<close> fl False by (intro filter_update_drop) simp_all
        moreover have "length (filter in_flight (promises sys)) \<le> 1"
          using assms by (simp add: guarded_def)
        ultimately have "length (filter in_flight ((promises sys)[i := p])) = 0"
          by linarith
        then have "filter in_flight ((promises sys)[i := p]) = []"
          by simp
        then show ?thesis
          using auto \<open>i < length (promises sys)\<close> by (simp add: guarded_def Settle m)
      qed
    qed
  qed
qed

lemma guarded_fold: "guarded sys \<Longrightarrow> guarded (fold dispatch acts sys)"
  by (induction acts arbitrary: sys) (simp_all add: guarded_dispatch)

lemma guarded_run: "guarded (run inputs acts)"
  by (simp add: run_def guarded_fold guarded_mount)

lemma AppState_change_done:
  "fold (AppState_change opened) cs \<lparr>subscribed = False, resolved = True\<rparr>
     = \<lparr>subscribed = False, resolved = True\<rparr>"
  by (induction cs) (simp_all add: AppState_change_def)

lemma fold_AppState_change:
  "fold (AppState_change opened) cs \<lparr>subscribed = True, resolved = False\<rparr> =
     (if \<exists>c \<in> set cs. fst c = ''active'' \<and> 1000 < snd c - opened
      then \<lparr>subscribed = False, resolved = True\<rparr>
      else \<lparr>subscribed = True, resolved = False\<rparr>)"
proof (induction cs)
  case Nil
  show ?case by simp
next
  case (Cons c cs)
  show ?case
  proof (cases "fst c = ''active'' \<and> 1000 < snd c - opened")
    case True
    then have "AppState_change opened c \<lparr>subscribed = True, resolved = False\<rparr>
                 = \<lparr>subscribed = False, resolved = True\<rparr>"
      by (simp add: AppState_change_def handleAppStateChange_def Let_def)
    then show ?thesis
      using True by (simp add: AppState_change_done)
  next
    case False
    then have "AppState_change opened c \<lparr>subscribed = True, resolved = False\<rparr>
                 = \<lparr>subscribed = True, resolved = False\<rparr>"
      by (auto simp add: AppState_change_def handleAppStateChange_def Let_def)
    then show ?thesis
      using False Cons.IH by auto
  qed
qed

lemma resume_stage:
  "resume env (s, p) = (s, p) \<or> stage (snd (resume env (s, p))) < stage p"
  by (cases p)
     (auto simp add: resume_def after_check_def after_openPermissionSettings_def after_ask_def
        after_modal_def split: sum.splits option.splits)

lemma resume_settles_aux:
  "stage (snd r) \<le> n \<Longrightarrow> resume env ((resume env ^^ n) r) = (resume env ^^ n) r"
proof (induction n arbitrary: r)
  case 0
  then show ?case by (cases r; cases "snd r") (auto simp: resume_def)
next
  case (Suc n)
  obtain s p where r: "r = (s, p)" by (cases r)
  have "resume env r = r \<or> stage (snd (resume env r)) < stage (snd r)"
    using resume_stage [of env s p] by (simp add: r)
  then show ?case
  proof
    assume f: "resume env r = r"
    have "(resume env ^^ k) r = r" for k
      by (induction k) (simp_all add: f)
    then show ?thesis by (simp add: f)
  next
    assume "stage (snd (resume env r)) < stage (snd r)"
    then have "stage (snd (resume env r)) \<le> n" using Suc.prems by simp
    from Suc.IH [OF this] show ?thesis
      by (simp add: funpow_swap1)
  qed
qed

lemma request_settles: "resume env (request env s) = request env s"
proof -
  have "stage (snd (maybeRequestPermission s)) \<le> 4"
    by (cases "snd (maybeRequestPermission s)") simp_all
  from resume_settles_aux [OF this, of env]
  show ?thesis
    by (simp add: request_def numeral_eq_Suc)
qed

lemma request_short_circuit:
  assumes "\<not> acquires s"
  shows "snd (request env s) = Resolved (savedState s) \<and> savedState (fst (request env s)) = savedState s"
  using assms
  by (auto simp add: acquires_def request_def maybeRequestPermission_def Let_def resume_Resolved emit_simps)

lemma after_ask_completes:
  assumes "modal_result env = Some (Inr ())"
  shows "snd (resume env (after_ask cr (ask_result env) s)) =
           Resolved (case ask_result env of
                       Inl err \<Rightarrow> UnexpectedError
                     | Inr a \<Rightarrow> if status a = GRANTED then Granted
                                else if status a = DENIED then Denied else UnexpectedError)
       \<and> savedState (fst (resume env (after_ask cr (ask_result env) s))) =
           (case ask_result env of
                       Inl err \<Rightarrow> UnexpectedError
                     | Inr a \<Rightarrow> if status a = GRANTED then Granted
                                else if status a = DENIED then Denied else UnexpectedError)"
  using assms
  by (cases "ask_result env")
     (simp_all add: after_ask_def resume_def after_modal_def sess_simps)

lemma request_completes:
  assumes "settings_result env = Some (Inr ())" "modal_result env = Some (Inr ())"
  shows "snd (request env s) = Resolved (spec_final_state env s)
       \<and> savedState (fst (request env s)) = spec_final_state env s"
proof (cases "acquires s")
  case False
  then have "spec_final_state env s = savedState s"
    by (auto simp add: acquires_def spec_final_state_def)
  then show ?thesis
    using request_short_circuit [OF False] by simp
next
  case True
  then have a: "savedState s \<noteq> Granted" "\<not> (savedState s = Requesting \<and> \<not> savedIsAutoRequest s)"
    by (simp_all add: acquires_def)
  show ?thesis
  proof (cases "check_result env")
    case (Inl err)
    show ?thesis
      using a by (simp add: request_check_raises [OF True Inl] sess_simps spec_final_state_def Inl)
  next
    case (Inr cr)
    show ?thesis
    proof (cases "status cr = GRANTED")
      case g: True
      show ?thesis
        using a by (simp add: request_check_granted [OF True Inr g] sess_simps spec_final_state_def Inr g)
    next
      case ng: False
      have c: "canAskAgain cr \<or> settings_result env = Some (Inr ())"
        using assms(1) by simp
      show ?thesis
        using a ng after_ask_completes [OF assms(2), of cr "asking cr s"]
        by (auto simp add: request_asked [OF True Inr ng c] spec_final_state_def Inr)
    qed
  qed
qed

text \<open>
  The lemma \<open>request_settles\<close> above justifies the four resumptions of \<open>request\<close>: its
  result is a fixed point of \<open>resume\<close>, so the call is resolved, abandoned, or suspended
  on a collaborator that never settles.
\<close>

section \<open>Evaluation at the example sessions\<close>

lemmas model_defs = usePermission_def request_def maybeRequestPermission_def resume_def
  after_check_def after_openPermissionSettings_def after_ask_def after_modal_def
  setState_def emit_def emitted_def acquires_def truthy_def options_noRender_def
  options_autoRequest_def settingFailureModal_def Let_def

lemmas example_defs = ScannerView_inputs_def location_inputs_def silent_inputs_def
  fresh_def kickoff_def answers_def response_def

section \<open>The acquisition sequence\<close>

text \<open>
  C1. In a call of \<^verbatim>\<open>request()\<close> that runs the acquisition sequence, whatever the
  session and its permission type, if \<^verbatim>\<open>check()\<close> returns the status granted, then
  \<^verbatim>\<open>ask()\<close> is not called, the Settings Redirect Flow is not invoked, the state is set
  to \<open>Granted\<close> and the promise resolves with \<open>Granted\<close>.
\<close>

theorem check_granted:
  assumes "acquires s" "check_result env = Inr cr" "status cr = GRANTED"
  shows "snd (request env s) = Resolved Granted
       \<and> savedState (fst (request env s)) = Granted
       \<and> filter is_ask (emitted s (fst (request env s))) = []
       \<and> filter is_settings_flow (emitted s (fst (request env s))) = []"
proof -
  have r: "request env s =
     (setState Granted (emit (provider (check_of (type (savedInputs s))))
        (setState Requesting (s\<lparr>savedIsAutoRequest := False\<rparr>))), Resolved Granted)"
    using assms by (rule request_check_granted)
  have "snd (request env s) = Resolved Granted" by (simp add: r)
  moreover have "savedState (fst (request env s)) = Granted" by (simp add: r savedState_setState)
  moreover have "filter is_ask (emitted s (fst (request env s))) = []"
    by (simp add: r emitted_def trace_setState emit_simps not_is_ask_check_of)
  moreover have "filter is_settings_flow (emitted s (fst (request env s))) = []"
    by (simp add: r emitted_def trace_setState emit_simps)
  ultimately show ?thesis by simp
qed

theorem check_granted_witness:
  "acquires (fresh location_inputs)
   \<and> check_result (answers (Inr (response GRANTED True)) (Inr (response DENIED True)))
       = Inr (response GRANTED True)
   \<and> status (response GRANTED True) = GRANTED
   \<and> snd (request (answers (Inr (response GRANTED True)) (Inr (response DENIED True)))
            (fresh location_inputs)) = Resolved Granted
   \<and> savedState (fst (request (answers (Inr (response GRANTED True)) (Inr (response DENIED True)))
            (fresh location_inputs))) = Granted
   \<and> filter is_ask (emitted (fresh location_inputs)
        (fst (request (answers (Inr (response GRANTED True)) (Inr (response DENIED True)))
            (fresh location_inputs)))) = []
   \<and> filter is_settings_flow (emitted (fresh location_inputs)
        (fst (request (answers (Inr (response GRANTED True)) (Inr (response DENIED True)))
            (fresh location_inputs)))) = []"
proof -
  let ?s = "fresh location_inputs"
  let ?env = "answers (Inr (response GRANTED True)) (Inr (response DENIED True))"
  have h1: "acquires ?s" by (simp add: model_defs example_defs)
  have h2: "check_result ?env = Inr (response GRANTED True)" by (simp add: example_defs)
  have h3: "status (response GRANTED True) = GRANTED" by (simp add: example_defs)
  show ?thesis using h1 h2 h3 check_granted [OF h1 h2 h3] by simp
qed

text \<open>
  C2. In an acquisition sequence whose \<^verbatim>\<open>check()\<close> returns denied with
  \<^verbatim>\<open>canAskAgain = false\<close>, the Settings Redirect Flow is invoked exactly once; no
  \<^verbatim>\<open>ask()\<close> precedes that invocation, and \<^verbatim>\<open>ask()\<close> is called (once) only when the
  flow has completed; the call is suspended on the flow in state \<open>Requesting\<close>, and the
  state is still \<open>Requesting\<close> when the flow has settled, whatever its result \<open>r\<close>.
\<close>

theorem settings_flow_once_before_ask:
  assumes "acquires s" "check_result env = Inr cr" "status cr = DENIED" "\<not> canAskAgain cr"
  shows "length (filter is_settings_flow (emitted s (fst (request env s)))) = 1
       \<and> filter is_ask (takeWhile (\<lambda>e. \<not> is_settings_flow e) (emitted s (fst (request env s)))) = []
       \<and> length (filter is_ask (emitted s (fst (request env s))))
           = (if settings_result env = Some (Inr ()) then 1 else 0)
       \<and> snd (resume env (maybeRequestPermission s))
           = AwaitOpenPermissionSettings (ask_of (type (savedInputs s))) cr
       \<and> savedState (fst (resume env (maybeRequestPermission s))) = Requesting
       \<and> savedState (fst (after_openPermissionSettings (ask_of (type (savedInputs s))) cr r
             (fst (resume env (maybeRequestPermission s))))) = Requesting"
proof -
  have ng: "status cr \<noteq> GRANTED" using assms(3) by simp
  obtain pre es where sh: "emitted s (fst (request env s)) =
           pre @ [provider (check_of (type (savedInputs s))),
                  call_openPermissionSettings (type (savedInputs s)) (getReason (savedInputs s) ())]
             @ (if settings_result env = Some (Inr ())
                then provider (ask_of (type (savedInputs s))) # es else [])"
     and pre: "set pre \<subseteq> {forceUpdate}"
     and es: "filter is_provider es = []" "filter is_settings_flow es = []"
    using emitted_request_settings [OF assms(1,2) ng assms(4)] by blast
  have p1: "filter is_settings_flow pre = []" "filter is_ask pre = []"
    using pre by (auto simp: filter_empty_conv)
  have p2: "takeWhile (\<lambda>e. \<not> is_settings_flow e) pre = pre"
    using pre by auto
  have c1: "length (filter is_settings_flow (emitted s (fst (request env s)))) = 1"
    by (simp add: sh p1 es)
  have c2: "filter is_ask (takeWhile (\<lambda>e. \<not> is_settings_flow e) (emitted s (fst (request env s)))) = []"
    using pre by (simp add: sh takeWhile_append p1 p2 not_is_ask_check_of)
  have c3: "length (filter is_ask (emitted s (fst (request env s))))
           = (if settings_result env = Some (Inr ()) then 1 else 0)"
    by (simp add: sh p1 not_is_ask_check_of is_ask_ask_of no_provider_no_ask [OF es(1)])
  note c4 = resume_settings_suspended [OF assms(1,2) ng assms(4)]
  show ?thesis
    using c1 c2 c3 c4 by (simp add: savedState_after_openPermissionSettings)
qed

theorem settings_flow_once_before_ask_witness:
  "acquires (fresh location_inputs)
   \<and> check_result (answers (Inr (response DENIED False)) (Inr (response DENIED True)))
       = Inr (response DENIED False)
   \<and> status (response DENIED False) = DENIED
   \<and> \<not> canAskAgain (response DENIED False)
   \<and> emitted (fresh location_inputs)
        (fst (request (answers (Inr (response DENIED False)) (Inr (response DENIED True)))
            (fresh location_inputs)))
       = [forceUpdate, provider (Permissions_getAsync LOCATION),
          call_openPermissionSettings location ''To show places nearby:'',
          provider (Permissions_askAsync LOCATION),
          modal_open (BasicModal (i18n_t ''permissions.settingFailure.title.location'')
             (i18n_t ''permissions.settingFailure.message.location'') (i18n_t ''generic.okay'')),
          forceUpdate]
   \<and> length (filter is_settings_flow (emitted (fresh location_inputs)
        (fst (request (answers (Inr (response DENIED False)) (Inr (response DENIED True)))
            (fresh location_inputs))))) = 1
   \<and> savedState (fst (after_openPermissionSettings
         (ask_of (type (savedInputs (fresh location_inputs))))
         (response DENIED False) (Inr ())
         (fst (resume (answers (Inr (response DENIED False)) (Inr (response DENIED True)))
            (maybeRequestPermission (fresh location_inputs)))))) = Requesting"
proof -
  let ?s = "fresh location_inputs"
  let ?env = "answers (Inr (response DENIED False)) (Inr (response DENIED True))"
  have h1: "acquires ?s" by (simp add: model_defs example_defs)
  have h2: "check_result ?env = Inr (response DENIED False)" by (simp add: example_defs)
  have h3: "status (response DENIED False) = DENIED" by (simp add: example_defs)
  have h4: "\<not> canAskAgain (response DENIED False)" by (simp add: example_defs)
  have e: "emitted ?s (fst (request ?env ?s))
       = [forceUpdate, provider (Permissions_getAsync LOCATION),
          call_openPermissionSettings location ''To show places nearby:'',
          provider (Permissions_askAsync LOCATION),
          modal_open (BasicModal (i18n_t ''permissions.settingFailure.title.location'')
             (i18n_t ''permissions.settingFailure.message.location'') (i18n_t ''generic.okay'')),
          forceUpdate]"
    by (simp add: model_defs example_defs)
  show ?thesis
    using h1 h2 h3 h4 e settings_flow_once_before_ask [OF h1 h2 h3 h4, of "Inr ()"] by simp
qed

text \<open>
  C3. In an acquisition sequence whose \<^verbatim>\<open>ask()\<close> returns denied (so the check was not
  granted and, where it said \<^verbatim>\<open>canAskAgain = false\<close>, the settings flow completed): if
  the check said \<^verbatim>\<open>canAskAgain = false\<close>, the informational dialog is shown exactly
  once; while the dialog is open the promise stays pending and the state stays
  \<open>Requesting\<close>, and once the dialog is closed the state is \<open>Denied\<close> and the promise
  resolves with \<open>Denied\<close>. If the check said \<^verbatim>\<open>canAskAgain = true\<close>, no dialog is
  shown, the state is \<open>Denied\<close> and the promise resolves with \<open>Denied\<close>.
\<close>

theorem ask_denied:
  assumes "acquires s" "check_result env = Inr cr" "status cr \<noteq> GRANTED"
    "canAskAgain cr \<or> settings_result env = Some (Inr ())"
    "ask_result env = Inr ar" "status ar = DENIED"
  shows "(\<not> canAskAgain cr \<longrightarrow>
            length (filter is_dialog (emitted s (fst (request env s)))) = 1
          \<and> (modal_result env = None \<longrightarrow>
               snd (request env s) = AwaitModal cr \<and> savedState (fst (request env s)) = Requesting)
          \<and> (modal_result env = Some (Inr ()) \<longrightarrow>
               snd (request env s) = Resolved Denied \<and> savedState (fst (request env s)) = Denied))
       \<and> (canAskAgain cr \<longrightarrow>
            filter is_dialog (emitted s (fst (request env s))) = []
          \<and> snd (request env s) = Resolved Denied \<and> savedState (fst (request env s)) = Denied)"
proof -
  note r = request_asked [OF assms(1-4)]
  obtain es where es: "trace (asking cr s) = trace s @ es" "filter is_dialog es = []"
    using filter_asking(1) [of s cr] trace_asking_prefix [of cr s] by auto
  show ?thesis
  proof (cases "canAskAgain cr")
    case True
    then show ?thesis
      using assms(5,6) es
      by (simp add: r after_ask_def resume_Resolved sess_simps emitted_def)
  next
    case False
    have "length (filter is_dialog (emitted s (fst (request env s)))) = 1"
      using assms(5,6) False es
      by (cases "modal_result env")
         (auto simp add: r after_ask_def resume_def after_modal_def sess_simps emitted_def
            settingFailureModal_def split: sum.splits)
    moreover have "modal_result env = None \<longrightarrow>
               snd (request env s) = AwaitModal cr \<and> savedState (fst (request env s)) = Requesting"
      using assms(5,6) False
      by (simp add: r after_ask_def resume_def sess_simps asking_simps)
    moreover have "modal_result env = Some (Inr ()) \<longrightarrow>
               snd (request env s) = Resolved Denied \<and> savedState (fst (request env s)) = Denied"
      using assms(5,6) False
      by (simp add: r after_ask_def resume_def after_modal_def sess_simps)
    ultimately show ?thesis using False by simp
  qed
qed

theorem ask_denied_witness:
  "acquires (fresh location_inputs)
   \<and> check_result (answers (Inr (response DENIED False)) (Inr (response DENIED True)))
       = Inr (response DENIED False)
   \<and> status (response DENIED False) \<noteq> GRANTED
   \<and> settings_result (answers (Inr (response DENIED False)) (Inr (response DENIED True)))
       = Some (Inr ())
   \<and> ask_result (answers (Inr (response DENIED False)) (Inr (response DENIED True)))
       = Inr (response DENIED True)
   \<and> status (response DENIED True) = DENIED
   \<and> \<not> canAskAgain (response DENIED False)
   \<and> modal_result (answers (Inr (response DENIED False)) (Inr (response DENIED True)))
       = Some (Inr ())
   \<and> length (filter is_dialog (emitted (fresh location_inputs)
        (fst (request (answers (Inr (response DENIED False)) (Inr (response DENIED True)))
            (fresh location_inputs))))) = 1
   \<and> snd (request (answers (Inr (response DENIED False)) (Inr (response DENIED True)))
            (fresh location_inputs)) = Resolved Denied
   \<and> savedState (fst (request (answers (Inr (response DENIED False)) (Inr (response DENIED True)))
            (fresh location_inputs))) = Denied
   \<and> acquires (kickoff ScannerView_inputs)
   \<and> check_result (answers (Inr (response DENIED True)) (Inr (response DENIED True)))
       = Inr (response DENIED True)
   \<and> canAskAgain (response DENIED True)
   \<and> filter is_dialog (emitted (kickoff ScannerView_inputs)
        (fst (request (answers (Inr (response DENIED True)) (Inr (response DENIED True)))
            (kickoff ScannerView_inputs)))) = []
   \<and> snd (request (answers (Inr (response DENIED True)) (Inr (response DENIED True)))
            (kickoff ScannerView_inputs)) = Resolved Denied
   \<and> savedState (fst (request (answers (Inr (response DENIED True)) (Inr (response DENIED True)))
            (kickoff ScannerView_inputs))) = Denied"
proof -
  let ?s = "fresh location_inputs"
  let ?env = "answers (Inr (response DENIED False)) (Inr (response DENIED True))"
  let ?s' = "kickoff ScannerView_inputs"
  let ?env' = "answers (Inr (response DENIED True)) (Inr (response DENIED True))"
  have h1: "acquires ?s" by (simp add: model_defs example_defs)
  have h2: "check_result ?env = Inr (response DENIED False)" by (simp add: example_defs)
  have h3: "status (response DENIED False) \<noteq> GRANTED" by (simp add: example_defs)
  have h4: "settings_result ?env = Some (Inr ())" by (simp add: example_defs)
  then have h4': "canAskAgain (response DENIED False) \<or> settings_result ?env = Some (Inr ())"
    by simp
  have h5: "ask_result ?env = Inr (response DENIED True)" by (simp add: example_defs)
  have h6: "status (response DENIED True) = DENIED" by (simp add: example_defs)
  have h7: "\<not> canAskAgain (response DENIED False)" by (simp add: example_defs)
  have h8: "modal_result ?env = Some (Inr ())" by (simp add: example_defs)
  have k1: "acquires ?s'" by (simp add: model_defs example_defs)
  have k2: "check_result ?env' = Inr (response DENIED True)" by (simp add: example_defs)
  have k3: "status (response DENIED True) \<noteq> GRANTED" by (simp add: example_defs)
  have k4: "canAskAgain (response DENIED True)" by (simp add: example_defs)
  then have k4': "canAskAgain (response DENIED True) \<or> settings_result ?env' = Some (Inr ())"
    by simp
  have k5: "ask_result ?env' = Inr (response DENIED True)" by (simp add: example_defs)
  show ?thesis
    using h1 h2 h3 h4 h5 h6 h7 h8 k1 k2 k4
      ask_denied [OF h1 h2 h3 h4' h5 h6] ask_denied [OF k1 k2 k3 k4' k5 h6]
    by simp
qed

text \<open>
  The location session again, with a check that says denied and
  \<^verbatim>\<open>canAskAgain = false\<close>, a completed settings flow and an \<^verbatim>\<open>ask()\<close> that returns
  denied, while the informational dialog stays open: the dialog was shown once, the
  promise is suspended on it and the state is \<open>Requesting\<close>, not \<open>Denied\<close>.
\<close>

theorem ask_denied_dialog_open:
  "acquires (fresh location_inputs)
   \<and> check_result ((answers (Inr (response DENIED False)) (Inr (response DENIED True)))
        \<lparr>modal_result := None\<rparr>) = Inr (response DENIED False)
   \<and> canAskAgain (response DENIED False) = False
   \<and> settings_result ((answers (Inr (response DENIED False)) (Inr (response DENIED True)))
        \<lparr>modal_result := None\<rparr>) = Some (Inr ())
   \<and> ask_result ((answers (Inr (response DENIED False)) (Inr (response DENIED True)))
        \<lparr>modal_result := None\<rparr>) = Inr (response DENIED True)
   \<and> status (response DENIED True) = DENIED
   \<and> length (filter is_dialog (emitted (fresh location_inputs)
        (fst (request ((answers (Inr (response DENIED False)) (Inr (response DENIED True)))
                \<lparr>modal_result := None\<rparr>)
            (fresh location_inputs))))) = 1
   \<and> snd (request ((answers (Inr (response DENIED False)) (Inr (response DENIED True)))
                \<lparr>modal_result := None\<rparr>)
            (fresh location_inputs)) = AwaitModal (response DENIED False)
   \<and> savedState (fst (request ((answers (Inr (response DENIED False)) (Inr (response DENIED True)))
                \<lparr>modal_result := None\<rparr>)
            (fresh location_inputs))) = Requesting"
  by (simp add: model_defs example_defs)

text \<open>
  C4. In an acquisition sequence in which the provider's \<^verbatim>\<open>check()\<close> raises, or in
  which its \<^verbatim>\<open>ask()\<close> is reached and raises, the promise of \<^verbatim>\<open>request()\<close> resolves
  with \<open>UnexpectedError\<close> (it is not rejected, and not left pending), the state is set to
  \<open>UnexpectedError\<close>, and exactly one report goes to the notification sink.
\<close>

theorem provider_raises:
  assumes "acquires s"
    and "check_result env = Inl err
       \<or> (\<exists>cr. check_result env = Inr cr \<and> status cr \<noteq> GRANTED
             \<and> (canAskAgain cr \<or> settings_result env = Some (Inr ()))
             \<and> ask_result env = Inl err)"
  shows "snd (request env s) = Resolved UnexpectedError
       \<and> savedState (fst (request env s)) = UnexpectedError
       \<and> length (filter is_report (emitted s (fst (request env s)))) = 1"
proof -
  consider (check) "check_result env = Inl err"
    | (ask) cr where "check_result env = Inr cr" "status cr \<noteq> GRANTED"
        "canAskAgain cr \<or> settings_result env = Some (Inr ())" "ask_result env = Inl err"
    using assms(2) by blast
  then show ?thesis
  proof cases
    case check
    show ?thesis
      by (simp add: request_check_raises [OF assms(1) check] sess_simps emitted_def)
  next
    case ask
    obtain es where es: "trace (asking cr s) = trace s @ es" "filter is_report es = []"
      using filter_asking(2) [of s cr] trace_asking_prefix [of cr s] by auto
    show ?thesis
      using es
      by (simp add: request_asked [OF assms(1) ask(1-3)] ask(4) after_ask_def resume_Resolved
          sess_simps emitted_def asking_simps)
  qed
qed

theorem provider_raises_witness:
  "acquires (fresh location_inputs)
   \<and> check_result (answers (Inl (Error ''unavailable'')) (Inr (response DENIED True)))
       = Inl (Error ''unavailable'')
   \<and> snd (request (answers (Inl (Error ''unavailable'')) (Inr (response DENIED True)))
            (fresh location_inputs)) = Resolved UnexpectedError
   \<and> savedState (fst (request (answers (Inl (Error ''unavailable'')) (Inr (response DENIED True)))
            (fresh location_inputs))) = UnexpectedError
   \<and> length (filter is_report (emitted (fresh location_inputs)
        (fst (request (answers (Inl (Error ''unavailable'')) (Inr (response DENIED True)))
            (fresh location_inputs))))) = 1
   \<and> check_result (answers (Inr (response UNDETERMINED True)) (Inl (Error ''unavailable'')))
       = Inr (response UNDETERMINED True)
   \<and> ask_result (answers (Inr (response UNDETERMINED True)) (Inl (Error ''unavailable'')))
       = Inl (Error ''unavailable'')
   \<and> snd (request (answers (Inr (response UNDETERMINED True)) (Inl (Error ''unavailable'')))
            (fresh location_inputs)) = Resolved UnexpectedError
   \<and> savedState (fst (request (answers (Inr (response UNDETERMINED True)) (Inl (Error ''unavailable'')))
            (fresh location_inputs))) = UnexpectedError
   \<and> length (filter is_report (emitted (fresh location_inputs)
        (fst (request (answers (Inr (response UNDETERMINED True)) (Inl (Error ''unavailable'')))
            (fresh location_inputs))))) = 1"
proof -
  let ?s = "fresh location_inputs"
  let ?env = "answers (Inl (Error ''unavailable'')) (Inr (response DENIED True))"
  let ?env' = "answers (Inr (response UNDETERMINED True)) (Inl (Error ''unavailable''))"
  have h1: "acquires ?s" by (simp add: model_defs example_defs)
  have h2: "check_result ?env = Inl (Error ''unavailable'')" by (simp add: example_defs)
  then have h2': "check_result ?env = Inl (Error ''unavailable'')
       \<or> (\<exists>cr. check_result ?env = Inr cr \<and> status cr \<noteq> GRANTED
             \<and> (canAskAgain cr \<or> settings_result ?env = Some (Inr ()))
             \<and> ask_result ?env = Inl (Error ''unavailable''))"
    by simp
  have k2: "check_result ?env' = Inr (response UNDETERMINED True)" by (simp add: example_defs)
  have k3: "ask_result ?env' = Inl (Error ''unavailable'')" by (simp add: example_defs)
  have k4: "status (response UNDETERMINED True) \<noteq> GRANTED"
    "canAskAgain (response UNDETERMINED True)" by (simp_all add: example_defs)
  have k2': "check_result ?env' = Inl (Error ''unavailable'')
       \<or> (\<exists>cr. check_result ?env' = Inr cr \<and> status cr \<noteq> GRANTED
             \<and> (canAskAgain cr \<or> settings_result ?env' = Some (Inr ()))
             \<and> ask_result ?env' = Inl (Error ''unavailable''))"
    using k2 k3 k4 by simp
  show ?thesis
    using h1 h2 k2 k3 provider_raises [OF h1 h2'] provider_raises [OF h1 k2'] by simp
qed

section \<open>The short-circuits\<close>

text \<open>
  C5. A call of \<^verbatim>\<open>request()\<close> while the state is \<open>Granted\<close> leaves the state
  \<open>Granted\<close>, calls neither \<^verbatim>\<open>check()\<close> nor \<^verbatim>\<open>ask()\<close> (its only effect is one
  report), and resolves with \<open>Granted\<close>.
\<close>

theorem request_while_granted:
  assumes "savedState s = Granted"
  shows "snd (request env s) = Resolved Granted
       \<and> savedState (fst (request env s)) = Granted
       \<and> emitted s (fst (request env s)) =
           [captureSentry (Message ''Permission has already been granted, will not request again.'')
              ''usePermission.maybeRequestPermission'' (type (savedInputs s)) (ExtraState Granted)]
       \<and> filter is_provider (emitted s (fst (request env s))) = []"
  using assms
  by (simp add: request_def maybeRequestPermission_def resume_Resolved emit_simps emitted_def)

theorem request_while_granted_witness:
  "savedState (fst (request (answers (Inr (response GRANTED True)) (Inr (response DENIED True)))
      (fresh location_inputs))) = Granted
   \<and> snd (request (answers (Inr (response DENIED True)) (Inr (response DENIED True)))
        (fst (request (answers (Inr (response GRANTED True)) (Inr (response DENIED True)))
           (fresh location_inputs)))) = Resolved Granted
   \<and> savedState (fst (request (answers (Inr (response DENIED True)) (Inr (response DENIED True)))
        (fst (request (answers (Inr (response GRANTED True)) (Inr (response DENIED True)))
           (fresh location_inputs))))) = Granted
   \<and> filter is_provider
        (emitted (fst (request (answers (Inr (response GRANTED True)) (Inr (response DENIED True)))
           (fresh location_inputs)))
        (fst (request (answers (Inr (response DENIED True)) (Inr (response DENIED True)))
        (fst (request (answers (Inr (response GRANTED True)) (Inr (response DENIED True)))
           (fresh location_inputs)))))) = []"
proof -
  let ?s = "fst (request (answers (Inr (response GRANTED True)) (Inr (response DENIED True)))
      (fresh location_inputs))"
  have h: "savedState ?s = Granted" by (simp add: model_defs example_defs)
  show ?thesis
    using h request_while_granted [OF h, of "answers (Inr (response DENIED True)) (Inr (response DENIED True))"]
    by simp
qed

text \<open>
  C6. In every system reached from a mounted hook by renders, calls of \<^verbatim>\<open>request()\<close>
  and continuations of suspended calls, while a call is in flight a further call of
  \<^verbatim>\<open>request()\<close> short-circuits: it resolves with \<open>Requesting\<close>, leaves the state
  \<open>Requesting\<close> and calls no provider; exactly one call is in flight before it and after
  it.
\<close>

theorem one_acquisition_at_a_time:
  assumes "p \<in> set (promises (run inputs acts))" "in_flight p"
  shows "snd (maybeRequestPermission (hook (run inputs acts))) = Resolved Requesting
       \<and> savedState (fst (maybeRequestPermission (hook (run inputs acts)))) = Requesting
       \<and> filter is_provider (emitted (hook (run inputs acts))
            (fst (maybeRequestPermission (hook (run inputs acts))))) = []
       \<and> length (filter in_flight (promises (run inputs acts))) = 1
       \<and> length (filter in_flight (promises (dispatch Request (run inputs acts)))) = 1"
proof -
  let ?sys = "run inputs acts"
  have g: "guarded ?sys" by (rule guarded_run)
  have ne: "filter in_flight (promises ?sys) \<noteq> []"
    using assms by (auto simp: filter_empty_conv)
  then have one: "length (filter in_flight (promises ?sys)) = 1"
    using g by (cases "filter in_flight (promises ?sys)") (simp_all add: guarded_def)
  have st: "savedState (hook ?sys) = Requesting" "\<not> savedIsAutoRequest (hook ?sys)"
    using g ne by (simp_all add: guarded_def)
  note b = maybeRequestPermission_busy [OF st]
  show ?thesis
    using one by (simp add: b emit_simps emitted_def st)
qed

theorem one_acquisition_at_a_time_witness:
  "promises (run location_inputs [Request, Request])
     = [AwaitCheck (Permissions_askAsync LOCATION), Resolved Requesting]
   \<and> AwaitCheck (Permissions_askAsync LOCATION) \<in> set (promises (run location_inputs [Request, Request]))
   \<and> in_flight (AwaitCheck (Permissions_askAsync LOCATION))
   \<and> snd (maybeRequestPermission (hook (run location_inputs [Request, Request])))
       = Resolved Requesting
   \<and> filter is_provider (emitted (hook (run location_inputs [Request, Request]))
        (fst (maybeRequestPermission (hook (run location_inputs [Request, Request]))))) = []
   \<and> length (filter in_flight (promises (dispatch Request (run location_inputs [Request, Request]))))
       = 1"
proof -
  have p: "promises (run location_inputs [Request, Request])
     = [AwaitCheck (Permissions_askAsync LOCATION), Resolved Requesting]"
    by (simp add: run_def mount_def requestOnMount_def model_defs example_defs)
  have h1: "AwaitCheck (Permissions_askAsync LOCATION)
      \<in> set (promises (run location_inputs [Request, Request]))"
    by (simp add: p)
  have h2: "in_flight (AwaitCheck (Permissions_askAsync LOCATION))" by simp
  show ?thesis
    using p h1 h2 one_acquisition_at_a_time [OF h1 h2] by simp
qed

text \<open>
  C7. A call of \<^verbatim>\<open>request()\<close> while the state is \<open>UnexpectedError\<close> does call the
  provider and does start a new acquisition sequence: the state is set to \<open>Requesting\<close>,
  the provider's \<^verbatim>\<open>check()\<close> is called, which is the only provider call of the
  synchronous part, and the call is suspended on it.
\<close>

theorem request_after_unexpected_error:
  assumes "savedState s = UnexpectedError"
  shows "snd (maybeRequestPermission s) = AwaitCheck (ask_of (type (savedInputs s)))
       \<and> savedState (fst (maybeRequestPermission s)) = Requesting
       \<and> filter is_provider (emitted s (fst (maybeRequestPermission s)))
           = [provider (check_of (type (savedInputs s)))]"
proof -
  have a: "acquires s" using assms by (simp add: acquires_def)
  show ?thesis
    by (simp add: maybeRequestPermission_acquires [OF a] sess_simps emitted_def assms)
qed

theorem request_after_unexpected_error_witness:
  "savedState (fst (request (answers (Inl (Error ''unavailable'')) (Inr (response DENIED True)))
      (kickoff ScannerView_inputs))) = UnexpectedError
   \<and> snd (maybeRequestPermission
        (fst (request (answers (Inl (Error ''unavailable'')) (Inr (response DENIED True)))
           (kickoff ScannerView_inputs))))
       = AwaitCheck (ask_of (type (savedInputs
           (fst (request (answers (Inl (Error ''unavailable'')) (Inr (response DENIED True)))
              (kickoff ScannerView_inputs))))))
   \<and> savedState (fst (maybeRequestPermission
        (fst (request (answers (Inl (Error ''unavailable'')) (Inr (response DENIED True)))
           (kickoff ScannerView_inputs))))) = Requesting"
proof -
  let ?s = "fst (request (answers (Inl (Error ''unavailable'')) (Inr (response DENIED True)))
      (kickoff ScannerView_inputs))"
  have h: "savedState ?s = UnexpectedError" by (simp add: model_defs example_defs)
  show ?thesis
    using h request_after_unexpected_error [OF h] by simp
qed

text \<open>
  The location session whose check raised is in state \<open>UnexpectedError\<close>; the next call
  of \<^verbatim>\<open>request()\<close> calls the provider's check and is in flight.
\<close>

theorem unexpected_error_not_absorbing:
  "savedState (fst (request (answers (Inl (Error ''unavailable'')) (Inr (response DENIED True)))
      (fresh location_inputs))) = UnexpectedError
   \<and> snd (maybeRequestPermission
        (fst (request (answers (Inl (Error ''unavailable'')) (Inr (response DENIED True)))
           (fresh location_inputs))))
       = AwaitCheck (Permissions_askAsync LOCATION)
   \<and> filter is_provider
        (emitted (fst (request (answers (Inl (Error ''unavailable'')) (Inr (response DENIED True)))
           (fresh location_inputs)))
         (fst (maybeRequestPermission
            (fst (request (answers (Inl (Error ''unavailable'')) (Inr (response DENIED True)))
               (fresh location_inputs))))))
       = [provider (Permissions_getAsync LOCATION)]"
  by (simp add: model_defs example_defs)

section \<open>The Settings Redirect Flow\<close>

text \<open>
  C8. After the settings screen was opened, the wait resolves exactly when a change of
  app state to \<^verbatim>\<open>'active'\<close> arrives whose clock reading is more than 1000 ms after the
  reading taken at the opening; then the listener is unsubscribed. Up to the first such
  change the listener stays subscribed and the wait unresolved, so earlier
  \<^verbatim>\<open>'active'\<close> changes are ignored. The flow as a whole resolves exactly when the
  assets have loaded, the dialog was confirmed and such a change arrives.
\<close>

theorem foreground_debounce:
  "await_return opened cs =
     (if \<exists>c \<in> set cs. fst c = ''active'' \<and> 1000 < snd c - opened
      then \<lparr>subscribed = False, resolved = True\<rparr>
      else \<lparr>subscribed = True, resolved = False\<rparr>)
   \<and> await_return opened (takeWhile (\<lambda>c. \<not> (fst c = ''active'' \<and> 1000 < snd c - opened)) cs)
       = \<lparr>subscribed = True, resolved = False\<rparr>
   \<and> (snd (openPermissionSettings dev senv t message) = Some (Inr ()) \<longleftrightarrow>
        assets_result senv = Some (Inr ()) \<and> confirm_result senv = Some (Inr ())
        \<and> (\<exists>c \<in> set (changes senv). fst c = ''active'' \<and> 1000 < snd c - opened_at senv))"
proof -
  have a: "await_return opened cs =
     (if \<exists>c \<in> set cs. fst c = ''active'' \<and> 1000 < snd c - opened
      then \<lparr>subscribed = False, resolved = True\<rparr>
      else \<lparr>subscribed = True, resolved = False\<rparr>)"
    by (simp add: await_return_def fold_AppState_change)
  have b: "await_return opened (takeWhile (\<lambda>c. \<not> (fst c = ''active'' \<and> 1000 < snd c - opened)) cs)
       = \<lparr>subscribed = True, resolved = False\<rparr>"
    by (auto simp add: await_return_def fold_AppState_change dest: set_takeWhileD)
  have c: "snd (openPermissionSettings dev senv t message) = Some (Inr ()) \<longleftrightarrow>
        assets_result senv = Some (Inr ()) \<and> confirm_result senv = Some (Inr ())
        \<and> (\<exists>c \<in> set (changes senv). fst c = ''active'' \<and> 1000 < snd c - opened_at senv)"
    by (auto simp add: openPermissionSettings_def Let_def await_return_def fold_AppState_change
        split: option.splits sum.splits)
  show ?thesis using a b c by blast
qed

theorem foreground_debounce_witness:
  "await_return 5000 [(''background'', 5100), (''active'', 5400), (''background'', 5600),
      (''active'', 6000), (''active'', 6001), (''active'', 9000)]
     = \<lparr>subscribed = False, resolved = True\<rparr>
   \<and> await_return 5000 [(''background'', 5100), (''active'', 5400), (''background'', 5600),
      (''active'', 6000)]
     = \<lparr>subscribed = True, resolved = False\<rparr>"
  using foreground_debounce [of 5000 "[(''background'', 5100), (''active'', 5400),
      (''background'', 5600), (''active'', 6000), (''active'', 6001), (''active'', 9000)]"]
    foreground_debounce [of 5000 "[(''background'', 5100), (''active'', 5400),
      (''background'', 5600), (''active'', 6000)]"]
  by simp

text \<open>
  C9. In an acquisition sequence whose \<^verbatim>\<open>check()\<close> returns, the Settings Redirect
  Flow is invoked (once) exactly when the status is not granted and
  \<^verbatim>\<open>canAskAgain\<close> is false: also for an undetermined status, not only for a denied one.
\<close>

theorem settings_flow_trigger:
  assumes "acquires s" "check_result env = Inr cr"
  shows "length (filter is_settings_flow (emitted s (fst (request env s))))
           = (if status cr \<noteq> GRANTED \<and> \<not> canAskAgain cr then 1 else 0)"
proof (cases "status cr = GRANTED")
  case True
  then show ?thesis
    by (simp add: request_check_granted [OF assms True] emitted_def sess_simps)
next
  case ng: False
  show ?thesis
  proof (cases "canAskAgain cr")
    case True
    then have c: "canAskAgain cr \<or> settings_result env = Some (Inr ())" by simp
    obtain es where es: "emitted s (fst (request env s)) = drop (length (trace s)) (trace (asking cr s)) @ es"
      "filter is_settings_flow es = []"
      using request_asked_tail [OF assms ng c] by blast
    show ?thesis
      using True by (simp add: es trace_asking)
  next
    case False
    obtain pre es where sh: "emitted s (fst (request env s)) =
           pre @ [provider (check_of (type (savedInputs s))),
                  call_openPermissionSettings (type (savedInputs s)) (getReason (savedInputs s) ())]
             @ (if settings_result env = Some (Inr ())
                then provider (ask_of (type (savedInputs s))) # es else [])"
     and pre: "set pre \<subseteq> {forceUpdate}"
     and es: "filter is_provider es = []" "filter is_settings_flow es = []"
      using emitted_request_settings [OF assms ng False] by blast
    have p1: "filter is_settings_flow pre = []"
      using pre by (auto simp: filter_empty_conv)
    show ?thesis
      using ng False by (simp add: sh p1 es)
  qed
qed

theorem settings_flow_trigger_witness:
  "acquires (kickoff ScannerView_inputs)
   \<and> check_result (answers (Inr (response UNDETERMINED False)) (Inr (response GRANTED True)))
       = Inr (response UNDETERMINED False)
   \<and> length (filter is_settings_flow (emitted (kickoff ScannerView_inputs)
        (fst (request (answers (Inr (response UNDETERMINED False)) (Inr (response GRANTED True)))
           (kickoff ScannerView_inputs))))) = 1"
proof -
  let ?s = "kickoff ScannerView_inputs"
  let ?env = "answers (Inr (response UNDETERMINED False)) (Inr (response GRANTED True))"
  have h1: "acquires ?s" by (simp add: model_defs example_defs)
  have h2: "check_result ?env = Inr (response UNDETERMINED False)" by (simp add: example_defs)
  have c: "status (response UNDETERMINED False) \<noteq> GRANTED \<and> \<not> canAskAgain (response UNDETERMINED False)"
    by (simp add: example_defs)
  show ?thesis
    using h1 h2 c settings_flow_trigger [OF h1 h2] by simp
qed

section \<open>Render suppression\<close>

text \<open>
  C10. With \<^verbatim>\<open>noRender\<close> set to true in the inputs of a render, the API object of that
  render has \<^verbatim>\<open>state\<close> undefined, whatever the session held before; a call of
  \<^verbatim>\<open>request()\<close> in that session never calls \<^verbatim>\<open>forceUpdate\<close>, whatever the
  collaborators answer; and where the Settings Redirect Flow and the informational dialog
  complete when they are awaited, the promise resolves, with the state that the
  specification's transition table and acquisition sequence settle on, which is the
  state the session then holds. Whenever the promise resolves, it does so with the state
  the session then holds.
\<close>

theorem noRender_state_undefined:
  assumes "truthy (options_noRender inputs)"
  shows "state (snd (usePermission inputs prev)) = None
       \<and> forceUpdate \<notin> set (emitted (fst (usePermission inputs prev))
                               (fst (request env (fst (usePermission inputs prev)))))
       \<and> (settings_result env = Some (Inr ()) \<and> modal_result env = Some (Inr ()) \<longrightarrow>
            snd (request env (fst (usePermission inputs prev)))
              = Resolved (spec_final_state env (fst (usePermission inputs prev)))
          \<and> savedState (fst (request env (fst (usePermission inputs prev))))
              = spec_final_state env (fst (usePermission inputs prev)))
       \<and> (snd (request env (fst (usePermission inputs prev))) = Resolved st \<longrightarrow>
            savedState (fst (request env (fst (usePermission inputs prev)))) = st)"
proof -
  have n: "truthy (options_noRender (savedInputs (fst (usePermission inputs prev))))"
    using assms by (cases prev) (simp_all add: usePermission_def)
  have "state (snd (usePermission inputs prev)) = None"
    using assms by (simp add: usePermission_def Let_def)
  then show ?thesis
    using request_quiet [OF n] request_resolved_state request_completes by blast
qed

theorem noRender_state_undefined_witness:
  "truthy (options_noRender silent_inputs)
   \<and> settings_result (answers (Inr (response DENIED False)) (Inr (response DENIED True)))
       = Some (Inr ())
   \<and> modal_result (answers (Inr (response DENIED False)) (Inr (response DENIED True)))
       = Some (Inr ())
   \<and> spec_final_state (answers (Inr (response DENIED False)) (Inr (response DENIED True)))
        (fst (usePermission silent_inputs None)) = Denied
   \<and> state (snd (usePermission silent_inputs None)) = None
   \<and> forceUpdate \<notin> set (emitted (fst (usePermission silent_inputs None))
        (fst (request (answers (Inr (response DENIED False)) (Inr (response DENIED True)))
           (fst (usePermission silent_inputs None)))))
   \<and> snd (request (answers (Inr (response DENIED False)) (Inr (response DENIED True)))
        (fst (usePermission silent_inputs None))) = Resolved Denied
   \<and> savedState (fst (request (answers (Inr (response DENIED False)) (Inr (response DENIED True)))
        (fst (usePermission silent_inputs None)))) = Denied"
proof -
  let ?env = "answers (Inr (response DENIED False)) (Inr (response DENIED True))"
  have h: "truthy (options_noRender silent_inputs)" by (simp add: model_defs example_defs)
  have h2: "settings_result ?env = Some (Inr ())" "modal_result ?env = Some (Inr ())"
    by (simp_all add: example_defs)
  have v: "spec_final_state ?env (fst (usePermission silent_inputs None)) = Denied"
    by (simp add: spec_final_state_def model_defs example_defs)
  show ?thesis
    using h h2 v noRender_state_undefined [OF h, of None ?env Denied] by simp
qed

text \<open>
  The notifications session with \<^verbatim>\<open>noRender\<close>, with a check that says denied and
  \<^verbatim>\<open>canAskAgain = false\<close>, a completed settings flow and an \<^verbatim>\<open>ask()\<close> that returns
  denied, while the informational dialog stays open: the promise has not resolved.
\<close>

theorem noRender_request_pending:
  "truthy (options_noRender silent_inputs)
   \<and> snd (request ((answers (Inr (response DENIED False)) (Inr (response DENIED True)))
                \<lparr>modal_result := None\<rparr>)
            (fst (usePermission silent_inputs None))) = AwaitModal (response DENIED False)
   \<and> savedState (fst (request ((answers (Inr (response DENIED False)) (Inr (response DENIED True)))
                \<lparr>modal_result := None\<rparr>)
            (fst (usePermission silent_inputs None)))) = Requesting"
  by (simp add: model_defs example_defs)

end
